theory Spec2Isabelle
  imports Complex_Main
begin

section \<open>Python values and the errors of the program\<close>

text \<open>
  The values that reach \<^verbatim>\<open>Tree.__init__\<close>: what \<^verbatim>\<open>json.load\<close> and
  \<^verbatim>\<open>Tree.parse_python\<close> build. Dictionaries have string keys and keep their insertion
  order; a dictionary is an association list whose keys are distinct, read with
  \<open>map_of\<close>. Floating-point numbers are left out of the value type.
\<close>

datatype pyval =
    PNone
  | PBool bool
  | PInt int
  | PStr string
  | PList "pyval list"
  | PDict "(string \<times> pyval) list"

datatype error =
    KeyError string
  | TypeError
  | AttributeError
  | IndexError
  | FileNotFoundError
  | JSONDecodeError

text \<open>
  The library functions the class calls and whose code is not part of the repository are
  parameters of the model: \<^verbatim>\<open>json.dumps(_, indent=4)\<close>, \<^verbatim>\<open>json.load\<close> on the text of a
  file, and the builtin \<^verbatim>\<open>str\<close> on a value that is not already a string.
\<close>

record builtins =
  json_dumps :: "pyval \<Rightarrow> string"
  json_loads :: "string \<Rightarrow> pyval option"
  str_other :: "pyval \<Rightarrow> string"

definition py_str :: "builtins \<Rightarrow> pyval \<Rightarrow> string" where
  "py_str B v = (case v of PStr s \<Rightarrow> s | _ \<Rightarrow> str_other B v)"

text \<open>\<^verbatim>\<open>d.get(k, default)\<close> on a dictionary.\<close>

definition dict_get :: "(string \<times> pyval) list \<Rightarrow> string \<Rightarrow> pyval \<Rightarrow> pyval" where
  "dict_get d k dflt = (case map_of d k of None \<Rightarrow> dflt | Some v \<Rightarrow> v)"

text \<open>
  \<^verbatim>\<open>x[k]\<close> with a string key: a dictionary without the key raises KeyError, and every
  other value raises TypeError (a list or a string wants an integer index, the scalars are
  not subscriptable).
\<close>

fun getitem :: "pyval \<Rightarrow> string \<Rightarrow> error + pyval" where
  "getitem (PDict d) k = (case map_of d k of None \<Rightarrow> Inl (KeyError k) | Some v \<Rightarrow> Inr v)"
| "getitem _ k = Inl TypeError"

text \<open>
  What a \<^verbatim>\<open>for\<close> loop iterates over: the items of a list, the keys of a dictionary, the
  characters of a string; the other values are not iterable.
\<close>

fun py_iter :: "pyval \<Rightarrow> error + pyval list" where
  "py_iter (PList xs) = Inr xs"
| "py_iter (PDict d) = Inr (map (\<lambda>kv. PStr (fst kv)) d)"
| "py_iter (PStr s) = Inr (map (\<lambda>c. PStr [c]) s)"
| "py_iter _ = Inl TypeError"

text \<open>
  Keys of the children dictionary. Lists and dictionaries are unhashable; among the
  hashable values \<^verbatim>\<open>True == 1\<close> and \<^verbatim>\<open>False == 0\<close>, and equal keys share one slot.
\<close>

fun hashable :: "pyval \<Rightarrow> bool" where
  "hashable (PList _) = False"
| "hashable (PDict _) = False"
| "hashable _ = True"

fun key_norm :: "pyval \<Rightarrow> pyval" where
  "key_norm (PBool b) = PInt (if b then 1 else 0)"
| "key_norm v = v"

definition key_eq :: "pyval \<Rightarrow> pyval \<Rightarrow> bool" where
  "key_eq a b = (key_norm a = key_norm b)"

text \<open>
  \<^verbatim>\<open>d[k] = v\<close> on an insertion-ordered dictionary: an equal key keeps its place (and the
  key object stored first) and takes the new value; a new key goes to the end.
\<close>

fun dict_set :: "(pyval \<times> 'v) list \<Rightarrow> pyval \<Rightarrow> 'v \<Rightarrow> (pyval \<times> 'v) list" where
  "dict_set [] k v = [(k, v)]"
| "dict_set ((k', v') # r) k v =
     (if key_eq k' k then (k', v) # r else (k', v') # dict_set r k v)"

fun max_default :: "int list \<Rightarrow> int \<Rightarrow> int" where
  "max_default [] dflt = dflt"
| "max_default (x # xs) dflt = fold max xs x"

section \<open>The tree model: \<^verbatim>\<open>Tree.__init__\<close>\<close>

datatype tree =
  Tree (json: string) (content: string) (children: "(pyval \<times> tree) list")
       (height: int) (width: int)

definition options_message :: string where
  "options_message = ''Each of the options must have a value and a tree key.''"

text \<open>Sizes, for the termination of the constructor.\<close>

lemma map_of_size: "map_of d k = Some v \<Longrightarrow> size v < Suc (size_list (size_prod (\<lambda>x. 0) size) d)"
  by (induction d) (auto split: if_splits)

lemma getitem_size: "getitem x k = Inr v \<Longrightarrow> size v < size x"
  by (cases x) (auto split: option.splits dest: map_of_size)

lemma sum_list_size_le: "sum_list (map size xs) \<le> size_list size xs"
  by (induction xs) auto

lemma py_iter_size: "py_iter v = Inr xs \<Longrightarrow> sum_list (map size xs) \<le> size v"
proof (cases v)
  case (PList ys)
  assume "py_iter v = Inr xs"
  with PList have "xs = ys" by simp
  with PList show ?thesis using sum_list_size_le [of ys] by simp
next
  case (PDict d)
  assume "py_iter v = Inr xs"
  with PDict have "xs = map (\<lambda>kv. PStr (fst kv)) d" by simp
  then show ?thesis by (simp add: comp_def)
next
  case (PStr s)
  assume "py_iter v = Inr xs"
  with PStr have "xs = map (\<lambda>c. PStr [c]) s" by simp
  then show ?thesis by (simp add: comp_def)
qed auto

lemma dict_get_size:
  "size (dict_get d k (PList [])) \<le> Suc (size_list (size_prod (\<lambda>x. 0) size) d)"
  using map_of_size [of d k] by (auto simp: dict_get_def split: option.splits)

function Tree_init :: "builtins \<Rightarrow> pyval \<Rightarrow> error + tree"
  and children_of :: "builtins \<Rightarrow> pyval list \<Rightarrow> (pyval \<times> tree) list
                        \<Rightarrow> error + (pyval \<times> tree) list"
where
  "Tree_init B dic =
     (case dic of
        PDict d \<Rightarrow>
          (case py_iter (dict_get d ''options'' (PList [])) of
             Inl e \<Rightarrow> Inl e
           | Inr xs \<Rightarrow>
               (case children_of B xs [] of
                  Inl (KeyError m) \<Rightarrow> Inl (KeyError options_message)
                | Inl e \<Rightarrow> Inl e
                | Inr ch \<Rightarrow>
                    Inr (Tree (json_dumps B dic)
                              (py_str B (dict_get d ''content'' (PStr '''')))
                              ch
                              (max_default (map (\<lambda>x. height (snd x)) ch) 0 + 1)
                              (if ch \<noteq> [] then sum_list (map (\<lambda>x. width (snd x)) ch)
                               else 1))))
      | _ \<Rightarrow> Inl AttributeError)"
| "children_of B [] acc = Inr acc"
| "children_of B (x # rest) acc =
     (case getitem x ''value'' of
        Inl e \<Rightarrow> Inl e
      | Inr k \<Rightarrow>
          (case getitem x ''tree'' of
             Inl e \<Rightarrow> Inl e
           | Inr t \<Rightarrow>
               (case Tree_init B t of
                  Inl e \<Rightarrow> Inl e
                | Inr child \<Rightarrow>
                    if hashable k then children_of B rest (dict_set acc k child)
                    else Inl TypeError)))"
  by pat_completeness auto

termination
proof (relation "measure (\<lambda>a. case a of
            Inl (B, v) \<Rightarrow> 2 * size v + 2
          | Inr (B, xs, acc) \<Rightarrow> 2 * sum_list (map size xs) + 1)", goal_cases)
  case 1
  show ?case by simp
next
  case (2 B dic d xs)
  from py_iter_size [OF 2(2)] dict_get_size [of d "''options''"]
  show ?case using 2(1) by simp
next
  case (3 B x rest acc k t)
  from getitem_size [OF 3(2)] show ?case by simp
next
  case (4 B x rest acc k t child)
  from getitem_size [OF 4(2)] show ?case by simp
qed

text \<open>A node together with all its descendants, for statements about every node.\<close>

fun nodes :: "tree \<Rightarrow> tree list" where
  "nodes (Tree j c ch h w) = Tree j c ch h w # concat (map (\<lambda>x. nodes (snd x)) ch)"

section \<open>Files: \<^verbatim>\<open>Tree.to_json\<close> and \<^verbatim>\<open>Tree.from_json\<close>\<close>

text \<open>
  The file system is a map from paths to the text of the files. \<^verbatim>\<open>to_json\<close> writes the
  string kept in \<^verbatim>\<open>self.json\<close>; \<^verbatim>\<open>from_json\<close> reads a file, which raises
  FileNotFoundError when there is none, parses it with \<^verbatim>\<open>json.load\<close>, which raises
  JSONDecodeError on a text that is not JSON, and constructs a tree from the value.
\<close>

type_synonym filesystem = "string \<rightharpoonup> string"

definition to_json :: "tree \<Rightarrow> string \<Rightarrow> filesystem \<Rightarrow> filesystem" where
  "to_json t path fs = fs(path \<mapsto> json t)"

definition from_json :: "builtins \<Rightarrow> string \<Rightarrow> filesystem \<Rightarrow> error + tree" where
  "from_json B path fs =
     (case fs path of
        None \<Rightarrow> Inl FileNotFoundError
      | Some text \<Rightarrow>
          (case json_loads B text of
             None \<Rightarrow> Inl JSONDecodeError
           | Some dic \<Rightarrow> Tree_init B dic))"

section \<open>The block parser: \<^verbatim>\<open>Tree.parse_python\<close>\<close>

text \<open>
  A character of a line is read as the code point of the same number. The classes are
  those of Python's \<^verbatim>\<open>re\<close> on \<^verbatim>\<open>str\<close> patterns, cut to the code points below 256:
  \<^verbatim>\<open>\s\<close> (and \<^verbatim>\<open>str.strip\<close>) take the characters for which \<^verbatim>\<open>str.isspace\<close> holds, and a
  word character, for \<^verbatim>\<open>\b\<close>, is an alphanumeric character or the underscore.
\<close>

definition is_space :: "char \<Rightarrow> bool" where
  "is_space c = (let n = of_char c :: nat in
     (9 \<le> n \<and> n \<le> 13) \<or> (28 \<le> n \<and> n \<le> 32) \<or> n = 133 \<or> n = 160)"

definition is_word :: "char \<Rightarrow> bool" where
  "is_word c = (let n = of_char c :: nat in
     (48 \<le> n \<and> n \<le> 57) \<or> (65 \<le> n \<and> n \<le> 90) \<or> n = 95 \<or> (97 \<le> n \<and> n \<le> 122) \<or>
     n = 170 \<or> n = 178 \<or> n = 179 \<or> n = 181 \<or> n = 185 \<or> n = 186 \<or>
     (188 \<le> n \<and> n \<le> 190) \<or> (192 \<le> n \<and> n \<le> 214) \<or> (216 \<le> n \<and> n \<le> 246) \<or>
     248 \<le> n)"

text \<open>\<^verbatim>\<open>s.strip()\<close> and \<^verbatim>\<open>sep.join(xs)\<close>.\<close>

definition strip :: "string \<Rightarrow> string" where
  "strip s = rev (dropWhile is_space (rev (dropWhile is_space s)))"

fun join :: "string \<Rightarrow> string list \<Rightarrow> string" where
  "join sep [] = []"
| "join sep [x] = x"
| "join sep (x # y # ys) = x @ sep @ join sep (y # ys)"

text \<open>The rest of a line after a literal prefix, when the line starts with it.\<close>

fun strip_prefix :: "string \<Rightarrow> string \<Rightarrow> string option" where
  "strip_prefix [] s = Some s"
| "strip_prefix (p # ps) [] = None"
| "strip_prefix (p # ps) (c # cs) = (if p = c then strip_prefix ps cs else None)"

text \<open>
  The regular expressions of the loop. Each is anchored at the start of the line by
  \<^verbatim>\<open>^\<close>, and \<^verbatim>\<open>indent\<close>, made of whitespace only, stands for itself in the pattern.

  \<^verbatim>\<open>(.+):\<close> at the start of \<open>r\<close>: the dot takes no newline and the group is greedy, so
  the group ends before the last colon of the first line of \<open>r\<close>, and is not empty.
\<close>

definition colon_group :: "string \<Rightarrow> string option" where
  "colon_group r =
     (case dropWhile (\<lambda>c. c \<noteq> CHR '':'') (rev (takeWhile (\<lambda>c. c \<noteq> CHR 0x0A) r)) of
        [] \<Rightarrow> None
      | c # b \<Rightarrow> if b = [] then None else Some (rev b))"

text \<open>\<^verbatim>\<open>^{indent}if\b\<close>\<close>

definition starts_if :: "string \<Rightarrow> string \<Rightarrow> bool" where
  "starts_if indent line =
     (case strip_prefix (indent @ ''if'') line of
        None \<Rightarrow> False
      | Some [] \<Rightarrow> True
      | Some (c # r) \<Rightarrow> \<not> is_word c)"

text \<open>\<^verbatim>\<open>^{indent}if\s(.+):\<close>, giving group 1.\<close>

definition if_clause :: "string \<Rightarrow> string \<Rightarrow> string option" where
  "if_clause indent line =
     (case strip_prefix (indent @ ''if'') line of
        None \<Rightarrow> None
      | Some [] \<Rightarrow> None
      | Some (c # r) \<Rightarrow> if is_space c then colon_group r else None)"

text \<open>\<^verbatim>\<open>^{indent}\s+\<close>\<close>

definition is_body :: "string \<Rightarrow> string \<Rightarrow> bool" where
  "is_body indent line =
     (case strip_prefix indent line of
        None \<Rightarrow> False
      | Some [] \<Rightarrow> False
      | Some (c # r) \<Rightarrow> is_space c)"

text \<open>
  \<^verbatim>\<open>^{indent}elif\s+(.+):\<close>, giving group 1: the greedy \<^verbatim>\<open>\s+\<close> first takes the whole run of
  whitespace and gives characters back, one at a time, while the rest does not match.
\<close>

fun ws_then_group :: "nat \<Rightarrow> string \<Rightarrow> string option" where
  "ws_then_group 0 r = None"
| "ws_then_group (Suc k) r =
     (case colon_group (drop (Suc k) r) of
        Some g \<Rightarrow> Some g
      | None \<Rightarrow> ws_then_group k r)"

definition elif_clause :: "string \<Rightarrow> string \<Rightarrow> string option" where
  "elif_clause indent line =
     (case strip_prefix (indent @ ''elif'') line of
        None \<Rightarrow> None
      | Some r \<Rightarrow> ws_then_group (length (takeWhile is_space r)) r)"

text \<open>\<^verbatim>\<open>^{indent}else\<close>\<close>

definition is_else :: "string \<Rightarrow> string \<Rightarrow> bool" where
  "is_else indent line = (strip_prefix (indent @ ''else'') line \<noteq> None)"

text \<open>The local variables of the loop over the lines, and one turn of the loop.\<close>

record parse_state =
  permeated :: "string list"
  subtrees :: "(string option \<times> string list) list"
  initial_clause :: "string option"
  cur_clause :: "string option"
  cur_subtree :: "string list"
  start :: bool

definition parse_step :: "string \<Rightarrow> string \<Rightarrow> parse_state \<Rightarrow> parse_state" where
  "parse_step indent line st =
     (if \<not> start st \<and> \<not> starts_if indent line then
        st\<lparr>permeated := permeated st @ [line]\<rparr>
      else case if_clause indent line of
        Some clause \<Rightarrow>
          st\<lparr>cur_clause := Some clause,
             initial_clause := (if initial_clause st = None then Some clause
                                else initial_clause st),
             start := True\<rparr>
      | None \<Rightarrow>
          if start st \<and> is_body indent line then
            st\<lparr>cur_subtree := cur_subtree st @ [line]\<rparr>
          else if start st \<and> elif_clause indent line \<noteq> None then
            st\<lparr>subtrees := subtrees st @ [(cur_clause st, cur_subtree st)],
               cur_clause := elif_clause indent line,
               cur_subtree := []\<rparr>
          else if start st \<and> is_else indent line then
            st\<lparr>subtrees := subtrees st @ [(cur_clause st, cur_subtree st)],
               cur_clause := Some ''else'',
               cur_subtree := []\<rparr>
          else st)"

definition parse_loop :: "string \<Rightarrow> string list \<Rightarrow> string list \<Rightarrow> parse_state" where
  "parse_loop indent code perm =
     (let st = fold (parse_step indent) code
                 \<lparr>permeated = perm, subtrees = [], initial_clause = None,
                  cur_clause = None, cur_subtree = [], start = False\<rparr>
      in st\<lparr>subtrees := subtrees st @ [(cur_clause st, cur_subtree st)]\<rparr>)"

text \<open>A list comprehension whose element expression may raise: the first error ends it.\<close>

fun collect :: "('e + 'a) list \<Rightarrow> 'e + 'a list" where
  "collect [] = Inr []"
| "collect (Inl e # rs) = Inl e"
| "collect (Inr v # rs) = (case collect rs of Inl e \<Rightarrow> Inl e | Inr vs \<Rightarrow> Inr (v # vs))"

definition clause_value :: "string option \<Rightarrow> pyval" where
  "clause_value c = (case c of None \<Rightarrow> PNone | Some s \<Rightarrow> PStr s)"

text \<open>
  The bodies handed to the recursive calls are shorter than the block: a body line is
  collected only after the line of the \<^verbatim>\<open>if\<close> clause, which belongs to no body.
\<close>

definition body_lines :: "parse_state \<Rightarrow> nat" where
  "body_lines st = sum_list (map (\<lambda>x. length (snd x)) (subtrees st)) + length (cur_subtree st)"

definition loop_inv :: "parse_state \<Rightarrow> nat \<Rightarrow> bool" where
  "loop_inv st n \<longleftrightarrow>
     body_lines st + (if start st then 1 else 0) \<le> n \<and> (\<not> start st \<longrightarrow> body_lines st = 0)"

lemma parse_step_inv: "loop_inv st n \<Longrightarrow> loop_inv (parse_step indent line st) (Suc n)"
  by (auto simp: loop_inv_def parse_step_def body_lines_def split: option.splits)

lemma fold_parse_step_inv:
  "loop_inv st n \<Longrightarrow> loop_inv (fold (parse_step indent) code st) (n + length code)"
proof (induction code arbitrary: st n)
  case Nil
  then show ?case by simp
next
  case (Cons line code)
  from Cons.IH [OF parse_step_inv [OF Cons.prems]] show ?case by simp
qed

lemma parse_loop_bodies:
  assumes "x \<in> set (subtrees (parse_loop indent code perm))" and "snd x \<noteq> []"
  shows "length (snd x) < length code"
proof -
  define st0 where "st0 = \<lparr>permeated = perm, subtrees = [], initial_clause = None,
                  cur_clause = None, cur_subtree = [], start = False\<rparr>"
  define st where "st = fold (parse_step indent) code st0"
  have "loop_inv st0 0" by (simp add: st0_def loop_inv_def body_lines_def)
  from fold_parse_step_inv [OF this, of indent code]
  have inv: "loop_inv st (length code)" by (simp add: st_def)
  from assms(1) have x: "x \<in> set (subtrees st) \<or> x = (cur_clause st, cur_subtree st)"
    by (auto simp: parse_loop_def st_def st0_def Let_def)
  have le: "length (snd x) \<le> body_lines st"
  proof -
    have "x \<in> set ys \<Longrightarrow> length (snd x) \<le> sum_list (map (\<lambda>x. length (snd x)) ys)" for ys
      by (induction ys) auto
    from this [of "subtrees st"] x show ?thesis by (auto simp: body_lines_def)
  qed
  from assms(2) have "Suc 0 \<le> length (snd x)" by (cases "snd x") simp_all
  with le have "0 < body_lines st" by linarith
  with inv have "start st" by (auto simp: loop_inv_def)
  with inv le show ?thesis by (auto simp: loop_inv_def)
qed

function parse_python :: "string list \<Rightarrow> string list option \<Rightarrow> error + pyval" where
  "parse_python code permeated_arg =
     (case code of
        [] \<Rightarrow> Inl IndexError
      | first # others \<Rightarrow>
          (let st = parse_loop (takeWhile is_space first) code
                      (case permeated_arg of None \<Rightarrow> [] | Some p \<Rightarrow> p)
           in case collect
                     (map (\<lambda>x. case parse_python (snd x) (Some (permeated st)) of
                                  Inl e \<Rightarrow> Inl e
                                | Inr t \<Rightarrow>
                                    Inr (PDict [(''value'', clause_value (fst x)),
                                                (''tree'', t)]))
                          (filter (\<lambda>x. snd x \<noteq> []) (subtrees st))) of
                Inl e \<Rightarrow> Inl e
              | Inr opts \<Rightarrow>
                  (case initial_clause st of
                     Some c \<Rightarrow>
                       Inr (PDict [(''content'', PStr (strip c)), (''options'', PList opts)])
                   | None \<Rightarrow>
                       Inr (PDict [(''content'',
                                    PStr (join [CHR 0x0A] (map strip (permeated st))))]))))"
  by pat_completeness auto

termination
proof (relation "measure (\<lambda>(code, p). length code)", goal_cases)
  case 1
  show ?case by simp
next
  case (2 code permeated_arg first others st x)
  from 2(3) have "x \<in> set (subtrees st)" and "snd x \<noteq> []" by auto
  with 2(2) have "length (snd x) < length code"
    using parse_loop_bodies [of x "takeWhile is_space first" code] by simp
  then show ?case by simp
qed

declare parse_python.simps [simp del]

text \<open>
  \<^verbatim>\<open>Tree.from_python\<close>, from the list of lines that \<^verbatim>\<open>f.readlines()\<close> returned:
  \<^verbatim>\<open>cls(Tree.parse_python(code))\<close>.
\<close>

definition from_python :: "builtins \<Rightarrow> string list \<Rightarrow> error + tree" where
  "from_python B code =
     (case parse_python code None of Inl e \<Rightarrow> Inl e | Inr dic \<Rightarrow> Tree_init B dic)"

text \<open>The shape that the constructor gives a node: its width and height from its children.\<close>

definition node_ok :: "tree \<Rightarrow> bool" where
  "node_ok n \<longleftrightarrow>
     (children n = [] \<longrightarrow> width n = 1 \<and> height n = 1) \<and>
     (children n \<noteq> [] \<longrightarrow>
        width n = (\<Sum>c\<leftarrow>children n. width (snd c)) \<and>
        height n = 1 + Max (set (map (\<lambda>c. height (snd c)) (children n)))) \<and>
     1 \<le> width n \<and> 1 \<le> height n"

section \<open>The layout: \<^verbatim>\<open>Tree.plot\<close>\<close>














section \<open>The serialized format\<close>

lemma elem_size: "x \<in> set xs \<Longrightarrow> size x < Suc (size_list size xs)"
  by (induction xs) auto

text \<open>
  The serialized tree format of the specification, for a value read from a file: a
  dictionary whose \<^verbatim>\<open>options\<close>, when present, is a list of dictionaries; in each of
  them \<^verbatim>\<open>value\<close>, when present, is hashable (a string, in the format) and \<^verbatim>\<open>tree\<close>, when
  present, is again such a record. Keys may be missing: that is what the constructor
  checks.
\<close>

function record_shape :: "pyval \<Rightarrow> bool" and entry_shape :: "pyval \<Rightarrow> bool" where
  "record_shape dic =
     (case dic of
        PDict d \<Rightarrow>
          (case map_of d ''options'' of
             None \<Rightarrow> True
           | Some (PList xs) \<Rightarrow> (\<forall>x\<in>set xs. entry_shape x)
           | Some _ \<Rightarrow> False)
      | _ \<Rightarrow> False)"
| "entry_shape x =
     (case x of
        PDict e \<Rightarrow>
          (case map_of e ''value'' of None \<Rightarrow> True | Some k \<Rightarrow> hashable k) \<and>
          (case map_of e ''tree'' of None \<Rightarrow> True | Some tr \<Rightarrow> record_shape tr)
      | _ \<Rightarrow> False)"
  by pat_completeness auto
termination
proof (relation "measure (\<lambda>a. case a of Inl v \<Rightarrow> size v | Inr x \<Rightarrow> size x)", goal_cases)
  case 1
  show ?case by simp
next
  case (2 dic d opts xs x)
  from map_of_size [OF 2(2)] elem_size [OF 2(4)] show ?case using 2(1,3) by simp
next
  case (3 x e tr)
  from map_of_size [OF 3(2)] show ?case using 3(1) by simp
qed

text \<open>
  Every entry of the options list has both keys, and so has every entry in the tree of
  each entry.
\<close>

function entries_complete :: "pyval \<Rightarrow> bool" and entry_complete :: "pyval \<Rightarrow> bool" where
  "entries_complete dic =
     (case dic of
        PDict d \<Rightarrow>
          (case map_of d ''options'' of
             Some (PList xs) \<Rightarrow> (\<forall>x\<in>set xs. entry_complete x)
           | _ \<Rightarrow> True)
      | _ \<Rightarrow> True)"
| "entry_complete x =
     (case x of
        PDict e \<Rightarrow>
          map_of e ''value'' \<noteq> None \<and>
          (case map_of e ''tree'' of None \<Rightarrow> False | Some tr \<Rightarrow> entries_complete tr)
      | _ \<Rightarrow> True)"
  by pat_completeness auto
termination
proof (relation "measure (\<lambda>a. case a of Inl v \<Rightarrow> size v | Inr x \<Rightarrow> size x)", goal_cases)
  case 1
  show ?case by simp
next
  case (2 dic d opts xs x)
  from map_of_size [OF 2(2)] elem_size [OF 2(4)] show ?case using 2(1,3) by simp
next
  case (3 x e tr)
  from map_of_size [OF 3(2)] show ?case using 3(1) by simp
qed

declare record_shape.simps [simp del] entry_shape.simps [simp del]
  entries_complete.simps [simp del] entry_complete.simps [simp del]

section \<open>Properties of the tree model\<close>

lemma max_default_Max: "xs \<noteq> [] \<Longrightarrow> max_default xs d = Max (set xs)"
proof (cases xs)
  case Nil
  assume "xs \<noteq> []"
  with Nil show ?thesis by simp
next
  case (Cons a list)
  then show ?thesis using Max.set_eq_fold [of a list] by simp
qed

lemma sum_list_ge_1:
  "ch \<noteq> [] \<Longrightarrow> \<forall>c\<in>set ch. (1::int) \<le> f c \<Longrightarrow> 1 \<le> sum_list (map f ch)"
proof (induction ch)
  case Nil then show ?case by simp
next
  case (Cons a ch)
  show ?case
  proof (cases "ch = []")
    case True with Cons.prems show ?thesis by simp
  next
    case False
    with Cons have "1 \<le> sum_list (map f ch)" by simp
    moreover from Cons.prems have "1 \<le> f a" by simp
    ultimately show ?thesis by simp
  qed
qed

lemma Max_ge_1:
  "ch \<noteq> [] \<Longrightarrow> \<forall>c\<in>set ch. (1::int) \<le> f c \<Longrightarrow> 1 \<le> Max (set (map f ch))"
proof -
  assume ne: "ch \<noteq> []" and all: "\<forall>c\<in>set ch. (1::int) \<le> f c"
  then obtain a where a: "a \<in> set ch" by (cases ch) auto
  then have "f a \<le> Max (set (map f ch))" by simp
  moreover from all a have "1 \<le> f a" by simp
  ultimately show ?thesis by linarith
qed

lemma dict_set_value:
  "(k', c) \<in> set (dict_set acc k v) \<Longrightarrow> c = v \<or> c \<in> snd ` set acc"
proof (induction acc)
  case Nil
  then show ?case by simp
next
  case (Cons a acc)
  obtain ka va where a: "a = (ka, va)" by (cases a)
  show ?case
  proof (cases "key_eq ka k")
    case True
    with Cons.prems a show ?thesis by force
  next
    case False
    with Cons.prems a have "(k', c) = (ka, va) \<or> (k', c) \<in> set (dict_set acc k v)"
      by simp
    with Cons.IH a show ?thesis by force
  qed
qed

lemma snd_dict_set: "snd ` set (dict_set acc k v) \<subseteq> insert v (snd ` set acc)"
proof
  fix c assume "c \<in> snd ` set (dict_set acc k v)"
  then obtain k' where "(k', c) \<in> set (dict_set acc k v)" by force
  from dict_set_value [OF this] show "c \<in> insert v (snd ` set acc)" by blast
qed

lemma init_nodes_ok:
  "(Tree_init B dic = Inr t \<longrightarrow> (\<forall>n\<in>set (nodes t). node_ok n))"
  "(children_of B xs acc = Inr ch \<longrightarrow> (\<forall>c\<in>snd ` set acc. \<forall>n\<in>set (nodes c). node_ok n)
      \<longrightarrow> (\<forall>c\<in>snd ` set ch. \<forall>n\<in>set (nodes c). node_ok n))"
proof (induction B dic and B xs acc arbitrary: t and ch rule: Tree_init_children_of.induct)
  case (1 B dic)
  show ?case
  proof
    assume ok: "Tree_init B dic = Inr t"
    then obtain d xs ch where dic: "dic = PDict d"
      and it: "py_iter (dict_get d ''options'' (PList [])) = Inr xs"
      and ch: "children_of B xs [] = Inr ch"
      and t: "t = Tree (json_dumps B dic) (py_str B (dict_get d ''content'' (PStr ''''))) ch
                 (max_default (map (\<lambda>x. height (snd x)) ch) 0 + 1)
                 (if ch \<noteq> [] then sum_list (map (\<lambda>x. width (snd x)) ch) else 1)"
      by (auto split: pyval.splits sum.splits error.splits)
    from 1 [OF dic it] ch have sub: "\<forall>c\<in>snd ` set ch. \<forall>n\<in>set (nodes c). node_ok n"
      by simp
    have self: "\<And>c. c \<in> snd ` set ch \<Longrightarrow> c \<in> set (nodes c)"
      by (case_tac c) simp
    have kids: "\<forall>c\<in>set ch. 1 \<le> width (snd c) \<and> 1 \<le> height (snd c)"
    proof
      fix c assume "c \<in> set ch"
      then have "snd c \<in> snd ` set ch" by simp
      with sub self have "node_ok (snd c)" by blast
      then show "1 \<le> width (snd c) \<and> 1 \<le> height (snd c)" by (simp add: node_ok_def)
    qed
    have "node_ok t"
    proof (cases "ch = []")
      case True
      with t show ?thesis by (simp add: node_ok_def)
    next
      case False
      with kids have "1 \<le> sum_list (map (\<lambda>x. width (snd x)) ch)"
        by (intro sum_list_ge_1) auto
      moreover from False kids have "1 \<le> Max (set (map (\<lambda>x. height (snd x)) ch))"
        by (intro Max_ge_1) auto
      ultimately show ?thesis using False t
        by (simp add: node_ok_def max_default_Max)
    qed
    with sub t show "\<forall>n\<in>set (nodes t). node_ok n" by auto
  qed
next
  case (2 B acc)
  show ?case by auto
next
  case (3 B x rest acc)
  show ?case
  proof (intro impI)
    assume res: "children_of B (x # rest) acc = Inr ch"
      and acc: "\<forall>c\<in>snd ` set acc. \<forall>n\<in>set (nodes c). node_ok n"
    from res obtain k t child where k: "getitem x ''value'' = Inr k"
      and t: "getitem x ''tree'' = Inr t" and child: "Tree_init B t = Inr child"
      and h: "hashable k" and rest: "children_of B rest (dict_set acc k child) = Inr ch"
      by (auto split: sum.splits if_splits)
    from 3(1) [OF k t] child have c: "\<forall>n\<in>set (nodes child). node_ok n" by simp
    have "\<forall>c\<in>snd ` set (dict_set acc k child). \<forall>n\<in>set (nodes c). node_ok n"
      using snd_dict_set [of acc k child] acc c by blast
    with 3(2) [OF k t child h] rest show "\<forall>c\<in>snd ` set ch. \<forall>n\<in>set (nodes c). node_ok n"
      by simp
  qed
qed

text \<open>
  C1. Every node of a constructed tree, the root and every descendant: without children
  its width and height are 1; with children its width is the sum of the children's widths
  and its height is 1 more than the largest height of a child. So every width and every
  height is at least 1.
\<close>

theorem tree_dimensions:
  assumes "Tree_init B dic = Inr t" and "n \<in> set (nodes t)"
  shows "(children n = [] \<longrightarrow> width n = 1 \<and> height n = 1) \<and>
         (children n \<noteq> [] \<longrightarrow>
            width n = (\<Sum>c\<leftarrow>children n. width (snd c)) \<and>
            height n = 1 + Max (set (map (\<lambda>c. height (snd c)) (children n)))) \<and>
         1 \<le> width n \<and> 1 \<le> height n"
  using init_nodes_ok(1) [of B dic t] assms unfolding node_ok_def by blast

theorem tree_dimensions_witness:
  "Tree_init \<lparr>json_dumps = (\<lambda>v. ''''), json_loads = (\<lambda>s. None), str_other = (\<lambda>v. '''')\<rparr>
     (PDict [(''content'', PStr ''a''),
             (''options'',
              PList [PDict [(''value'', PStr ''p''), (''tree'', PDict [(''content'', PStr ''x'')])],
                     PDict [(''value'', PStr ''q''), (''tree'', PDict [])]])])
   = Inr (Tree '''' ''a''
            [(PStr ''p'', Tree '''' ''x'' [] 1 1), (PStr ''q'', Tree '''' '''' [] 1 1)] 2 2)
   \<and> Tree '''' ''a'' [(PStr ''p'', Tree '''' ''x'' [] 1 1), (PStr ''q'', Tree '''' '''' [] 1 1)] 2 2
       \<in> set (nodes (Tree '''' ''a''
            [(PStr ''p'', Tree '''' ''x'' [] 1 1), (PStr ''q'', Tree '''' '''' [] 1 1)] 2 2))
   \<and> width (Tree '''' ''a''
            [(PStr ''p'', Tree '''' ''x'' [] 1 1), (PStr ''q'', Tree '''' '''' [] 1 1)] 2 2) = 1 + 1
   \<and> height (Tree '''' ''a''
            [(PStr ''p'', Tree '''' ''x'' [] 1 1), (PStr ''q'', Tree '''' '''' [] 1 1)] 2 2) = 1 + 1"
proof -
  let ?B = "\<lparr>json_dumps = (\<lambda>v. ''''), json_loads = (\<lambda>s. None), str_other = (\<lambda>v. '''')\<rparr>"
  let ?d = "PDict [(''content'', PStr ''a''),
             (''options'',
              PList [PDict [(''value'', PStr ''p''), (''tree'', PDict [(''content'', PStr ''x'')])],
                     PDict [(''value'', PStr ''q''), (''tree'', PDict [])]])]"
  let ?t = "Tree '''' ''a''
              [(PStr ''p'', Tree '''' ''x'' [] 1 1), (PStr ''q'', Tree '''' '''' [] 1 1)] 2 2"
  have h1: "Tree_init ?B ?d = Inr ?t"
    by (simp add: dict_get_def py_str_def key_eq_def)
  have h2: "?t \<in> set (nodes ?t)" by simp
  from tree_dimensions [OF h1 h2] h1 h2 show ?thesis by simp
qed




section \<open>Properties of the constructor on serialized records\<close>

lemma record_shape_PDict:
  "record_shape (PDict d) \<longleftrightarrow>
     (case map_of d ''options'' of
        None \<Rightarrow> True
      | Some (PList xs) \<Rightarrow> (\<forall>x\<in>set xs. entry_shape x)
      | Some _ \<Rightarrow> False)"
  by (subst record_shape.simps) simp

lemma record_shape_dict: "record_shape dic \<Longrightarrow> \<exists>d. dic = PDict d"
  by (subst (asm) record_shape.simps) (cases dic, simp_all)

lemma entry_shape_PDict:
  "entry_shape (PDict e) \<longleftrightarrow>
     (case map_of e ''value'' of None \<Rightarrow> True | Some k \<Rightarrow> hashable k) \<and>
     (case map_of e ''tree'' of None \<Rightarrow> True | Some tr \<Rightarrow> record_shape tr)"
  by (subst entry_shape.simps) simp

lemma entry_shape_dict: "entry_shape x \<Longrightarrow> \<exists>e. x = PDict e"
  by (subst (asm) entry_shape.simps) (cases x, simp_all)

lemma entries_complete_PDict:
  "entries_complete (PDict d) \<longleftrightarrow>
     (case map_of d ''options'' of
        Some (PList xs) \<Rightarrow> (\<forall>x\<in>set xs. entry_complete x)
      | _ \<Rightarrow> True)"
  by (subst entries_complete.simps) simp

lemma entry_complete_PDict:
  "entry_complete (PDict e) \<longleftrightarrow>
     map_of e ''value'' \<noteq> None \<and>
     (case map_of e ''tree'' of None \<Rightarrow> False | Some tr \<Rightarrow> entries_complete tr)"
  by (subst entry_complete.simps) simp

lemma children_of_fails:
  "x \<in> set xs \<Longrightarrow> isl (getitem x ''value'') \<or> isl (getitem x ''tree'')
     \<Longrightarrow> isl (children_of B xs acc)"
proof (induction xs arbitrary: acc)
  case Nil
  then show ?case by simp
next
  case (Cons y ys)
  show ?case
  proof (cases "x = y")
    case True
    with Cons.prems(2) show ?thesis by (auto split: sum.splits)
  next
    case False
    with Cons.prems have "x \<in> set ys" by simp
    from Cons.IH [OF this Cons.prems(2)] show ?thesis by (auto split: sum.splits)
  qed
qed

lemma shape_errors:
  "record_shape dic \<longrightarrow> (\<forall>e. Tree_init B dic = Inl e \<longrightarrow> e = KeyError options_message)"
  "(\<forall>x\<in>set xs. entry_shape x) \<longrightarrow> (\<forall>e. children_of B xs acc = Inl e \<longrightarrow> (\<exists>m. e = KeyError m))"
proof (induction B dic and B xs acc rule: Tree_init_children_of.induct)
  case (1 B dic)
  show ?case
  proof (intro impI allI)
    fix e assume sh: "record_shape dic" and err: "Tree_init B dic = Inl e"
    from record_shape_dict [OF sh] obtain d where dic: "dic = PDict d" by blast
    show "e = KeyError options_message"
    proof (cases "map_of d ''options''")
      case None
      with dic err show ?thesis by (simp add: dict_get_def)
    next
      case (Some opts)
      with sh dic obtain xs where opts: "opts = PList xs" and es: "\<forall>x\<in>set xs. entry_shape x"
        by (cases opts) (auto simp: record_shape_PDict)
      from Some opts have it: "py_iter (dict_get d ''options'' (PList [])) = Inr xs"
        by (simp add: dict_get_def)
      from 1 [OF dic it] es
      have "\<forall>e. children_of B xs [] = Inl e \<longrightarrow> (\<exists>m. e = KeyError m)" by blast
      with err dic it show ?thesis
        by (auto split: sum.splits error.splits)
    qed
  qed
next
  case (2 B acc)
  show ?case by simp
next
  case (3 B x rest acc)
  show ?case
  proof (intro impI allI)
    fix e assume es: "\<forall>x\<in>set (x # rest). entry_shape x"
      and err: "children_of B (x # rest) acc = Inl e"
    from es have ex: "entry_shape x" and er: "\<forall>x\<in>set rest. entry_shape x" by simp_all
    from entry_shape_dict [OF ex] obtain d where x: "x = PDict d" by blast
    show "\<exists>m. e = KeyError m"
    proof (cases "getitem x ''value''")
      case (Inl e1)
      with x err show ?thesis by (auto split: option.splits)
    next
      case k: (Inr k)
      show ?thesis
      proof (cases "getitem x ''tree''")
        case (Inl e1)
        with x k err show ?thesis by (auto split: option.splits)
      next
        case t: (Inr t)
        from ex x k t have hk: "hashable k" and st: "record_shape t"
          by (auto simp: entry_shape_PDict split: option.splits)
        show ?thesis
        proof (cases "Tree_init B t")
          case (Inl e1)
          with 3(1) [OF k t] st have "e1 = KeyError options_message" by blast
          with Inl k t err show ?thesis by (auto simp del: Tree_init.simps)
        next
          case (Inr child)
          from 3(2) [OF k t Inr hk] er
          have "\<forall>e. children_of B rest (dict_set acc k child) = Inl e \<longrightarrow> (\<exists>m. e = KeyError m)"
            by blast
          with Inr k t hk err show ?thesis by (simp del: Tree_init.simps)
        qed
      qed
    qed
  qed
qed

lemma shape_success:
  "record_shape dic \<longrightarrow> (isl (Tree_init B dic) \<longleftrightarrow> \<not> entries_complete dic)"
  "(\<forall>x\<in>set xs. entry_shape x) \<longrightarrow>
     (isl (children_of B xs acc) \<longleftrightarrow> \<not> (\<forall>x\<in>set xs. entry_complete x))"
proof (induction B dic and B xs acc rule: Tree_init_children_of.induct)
  case (1 B dic)
  show ?case
  proof
    assume sh: "record_shape dic"
    from record_shape_dict [OF sh] obtain d where dic: "dic = PDict d" by blast
    show "isl (Tree_init B dic) \<longleftrightarrow> \<not> entries_complete dic"
    proof (cases "map_of d ''options''")
      case None
      with dic show ?thesis by (simp add: dict_get_def entries_complete_PDict)
    next
      case (Some opts)
      with sh dic obtain xs where opts: "opts = PList xs" and es: "\<forall>x\<in>set xs. entry_shape x"
        by (cases opts) (auto simp: record_shape_PDict)
      from Some opts have it: "py_iter (dict_get d ''options'' (PList [])) = Inr xs"
        by (simp add: dict_get_def)
      from 1 [OF dic it] es
      have "isl (children_of B xs []) \<longleftrightarrow> \<not> (\<forall>x\<in>set xs. entry_complete x)" by blast
      moreover have "isl (Tree_init B dic) \<longleftrightarrow> isl (children_of B xs [])"
        using dic it by (auto split: sum.splits error.splits)
      moreover have "entries_complete dic \<longleftrightarrow> (\<forall>x\<in>set xs. entry_complete x)"
        using dic Some opts by (simp add: entries_complete_PDict)
      ultimately show ?thesis by simp
    qed
  qed
next
  case (2 B acc)
  show ?case by simp
next
  case (3 B x rest acc)
  show ?case
  proof
    assume es: "\<forall>x\<in>set (x # rest). entry_shape x"
    from es have ex: "entry_shape x" and er: "\<forall>x\<in>set rest. entry_shape x" by simp_all
    from entry_shape_dict [OF ex] obtain d where x: "x = PDict d" by blast
    show "isl (children_of B (x # rest) acc) \<longleftrightarrow> \<not> (\<forall>x\<in>set (x # rest). entry_complete x)"
    proof (cases "getitem x ''value''")
      case (Inl e1)
      with x show ?thesis by (auto simp: entry_complete_PDict split: option.splits)
    next
      case k: (Inr k)
      show ?thesis
      proof (cases "getitem x ''tree''")
        case (Inl e1)
        with x k show ?thesis by (auto simp: entry_complete_PDict split: option.splits)
      next
        case t: (Inr t)
        from ex x k t have hk: "hashable k" and st: "record_shape t"
          by (auto simp: entry_shape_PDict split: option.splits)
        from x k t have xc: "entry_complete x \<longleftrightarrow> entries_complete t"
          by (auto simp: entry_complete_PDict split: option.splits)
        show ?thesis
        proof (cases "Tree_init B t")
          case (Inl e1)
          with 3(1) [OF k t] st have "\<not> entries_complete t" by auto
          with Inl k t xc show ?thesis by (simp del: Tree_init.simps)
        next
          case (Inr child)
          with 3(1) [OF k t] st have "entries_complete t" by auto
          moreover from 3(2) [OF k t Inr hk] er
          have "isl (children_of B rest (dict_set acc k child))
                  \<longleftrightarrow> \<not> (\<forall>x\<in>set rest. entry_complete x)"
            by blast
          ultimately show ?thesis using Inr k t hk xc by (simp del: Tree_init.simps)
        qed
      qed
    qed
  qed
qed

text \<open>
  C5. A dictionary whose options list has an entry without the \<^verbatim>\<open>value\<close> key, or
  without the \<^verbatim>\<open>tree\<close> key: the constructor returns no tree. When the dictionary has
  the shape of a serialized record, the error is the KeyError that the constructor
  raises for its options (the SchemaError of the specification).
\<close>

theorem missing_option_key:
  assumes "map_of d ''options'' = Some (PList xs)"
    and "PDict e \<in> set xs"
    and "map_of e ''value'' = None \<or> map_of e ''tree'' = None"
  shows "(\<forall>t. Tree_init B (PDict d) \<noteq> Inr t) \<and>
         (record_shape (PDict d) \<longrightarrow> Tree_init B (PDict d) = Inl (KeyError options_message))"
proof -
  from assms(3) have "isl (getitem (PDict e) ''value'') \<or> isl (getitem (PDict e) ''tree'')"
    by auto
  from children_of_fails [OF assms(2) this]
  have "isl (children_of B xs [])" .
  with assms(1) have f: "isl (Tree_init B (PDict d))"
    by (auto simp: dict_get_def split: sum.splits error.splits)
  then obtain err where err: "Tree_init B (PDict d) = Inl err"
    by (cases "Tree_init B (PDict d)") simp_all
  from shape_errors(1) [of "PDict d" B] err
  have "record_shape (PDict d) \<longrightarrow> err = KeyError options_message" by blast
  with err show ?thesis by (simp del: Tree_init.simps)
qed

theorem missing_option_key_witness:
  "map_of [(''content'', PStr ''a''),
           (''options'', PList [PDict [(''value'', PStr ''p''), (''tree'', PDict [])],
                                PDict [(''tree'', PDict [])]])] ''options''
     = Some (PList [PDict [(''value'', PStr ''p''), (''tree'', PDict [])],
                    PDict [(''tree'', PDict [])]]) \<and>
   PDict [(''tree'', PDict [])]
     \<in> set [PDict [(''value'', PStr ''p''), (''tree'', PDict [])], PDict [(''tree'', PDict [])]] \<and>
   map_of [(''tree'', PDict [])] ''value'' = None \<and>
   record_shape (PDict [(''content'', PStr ''a''),
           (''options'', PList [PDict [(''value'', PStr ''p''), (''tree'', PDict [])],
                                PDict [(''tree'', PDict [])]])]) \<and>
   Tree_init \<lparr>json_dumps = (\<lambda>v. ''''), json_loads = (\<lambda>s. None), str_other = (\<lambda>v. '''')\<rparr>
     (PDict [(''content'', PStr ''a''),
           (''options'', PList [PDict [(''value'', PStr ''p''), (''tree'', PDict [])],
                                PDict [(''tree'', PDict [])]])])
     = Inl (KeyError ''Each of the options must have a value and a tree key.'')"
proof -
  let ?xs = "[PDict [(''value'', PStr ''p''), (''tree'', PDict [])], PDict [(''tree'', PDict [])]]"
  let ?d = "[(''content'', PStr ''a''), (''options'', PList ?xs)]"
  have h1: "map_of ?d ''options'' = Some (PList ?xs)" by simp
  have h2: "PDict [(''tree'', PDict [])] \<in> set ?xs" by simp
  have h3: "map_of [(''tree'', PDict [])] ''value'' = None" by simp
  then have h3': "map_of [(''tree'', PDict [])] ''value'' = None
                  \<or> map_of [(''tree'', PDict [])] ''tree'' = None" by simp
  have h4: "record_shape (PDict ?d)"
    by (simp add: record_shape_PDict entry_shape_PDict)
  from missing_option_key [OF h1 h2 h3'] h1 h2 h3 h4 show ?thesis
    by (simp add: options_message_def del: Tree_init.simps)
qed

text \<open>
  C9. A serialized record without the \<^verbatim>\<open>content\<close> key: the constructor succeeds, with
  the empty string as content, exactly when every entry of the options, at every depth,
  has both keys; otherwise it fails with the KeyError of the options. The empty
  dictionary gives a leaf with empty content.
\<close>

theorem missing_content_default:
  assumes "record_shape (PDict d)" and "map_of d ''content'' = None"
  shows "(entries_complete (PDict d) \<longrightarrow>
            (\<exists>t. Tree_init B (PDict d) = Inr t \<and> content t = '''')) \<and>
         (\<not> entries_complete (PDict d) \<longrightarrow>
            Tree_init B (PDict d) = Inl (KeyError options_message)) \<and>
         Tree_init B (PDict []) = Inr (Tree (json_dumps B (PDict [])) '''' [] 1 1)"
proof (intro conjI impI)
  assume "entries_complete (PDict d)"
  with shape_success(1) [of "PDict d" B] assms(1)
  have "\<not> isl (Tree_init B (PDict d))" by blast
  then obtain t where t: "Tree_init B (PDict d) = Inr t"
    by (cases "Tree_init B (PDict d)") simp_all
  then have "content t = ''''"
    using assms(2) by (auto simp: dict_get_def py_str_def split: sum.splits error.splits)
  with t show "\<exists>t. Tree_init B (PDict d) = Inr t \<and> content t = ''''" by blast
next
  assume "\<not> entries_complete (PDict d)"
  with shape_success(1) [of "PDict d" B] assms(1)
  have "isl (Tree_init B (PDict d))" by blast
  then obtain err where err: "Tree_init B (PDict d) = Inl err"
    by (cases "Tree_init B (PDict d)") simp_all
  with shape_errors(1) [of "PDict d" B] assms(1)
  show "Tree_init B (PDict d) = Inl (KeyError options_message)" by blast
next
  show "Tree_init B (PDict []) = Inr (Tree (json_dumps B (PDict [])) '''' [] 1 1)"
    by (simp add: dict_get_def py_str_def)
qed

theorem missing_content_default_witness:
  "record_shape (PDict [(''options'', PList [PDict [(''value'', PStr ''p''), (''tree'', PDict [])]])]) \<and>
   map_of [(''options'', PList [PDict [(''value'', PStr ''p''), (''tree'', PDict [])]])] ''content''
     = None \<and>
   entries_complete
     (PDict [(''options'', PList [PDict [(''value'', PStr ''p''), (''tree'', PDict [])]])]) \<and>
   Tree_init \<lparr>json_dumps = (\<lambda>v. ''''), json_loads = (\<lambda>s. None), str_other = (\<lambda>v. '''')\<rparr>
     (PDict [(''options'', PList [PDict [(''value'', PStr ''p''), (''tree'', PDict [])]])])
     = Inr (Tree '''' '''' [(PStr ''p'', Tree '''' '''' [] 1 1)] 2 1)"
proof -
  let ?B = "\<lparr>json_dumps = (\<lambda>v. ''''), json_loads = (\<lambda>s. None), str_other = (\<lambda>v. '''')\<rparr>"
  let ?d = "[(''options'', PList [PDict [(''value'', PStr ''p''), (''tree'', PDict [])]])]"
  have h1: "record_shape (PDict ?d)"
    by (simp add: record_shape_PDict entry_shape_PDict)
  have h2: "map_of ?d ''content'' = None" by simp
  have h3: "entries_complete (PDict ?d)"
    by (simp add: entries_complete_PDict entry_complete_PDict)
  from missing_content_default [OF h1 h2, of ?B] h3
  obtain t where "Tree_init ?B (PDict ?d) = Inr t" and "content t = ''''" by blast
  moreover have "Tree_init ?B (PDict ?d) = Inr (Tree '''' '''' [(PStr ''p'', Tree '''' '''' [] 1 1)] 2 1)"
    by (simp add: dict_get_def py_str_def key_eq_def)
  ultimately show ?thesis using h1 h2 h3 by blast
qed

section \<open>Properties of the children dictionary\<close>

lemma children_of_fold:
  "children_of B xs acc = Inr ch \<Longrightarrow>
     \<exists>kcs. list_all2 (\<lambda>x kc. getitem x ''value'' = Inr (fst kc) \<and>
                 (\<exists>tr. getitem x ''tree'' = Inr tr \<and> Tree_init B tr = Inr (snd kc))) xs kcs \<and>
           ch = foldl (\<lambda>a kc. dict_set a (fst kc) (snd kc)) acc kcs"
proof (induction xs arbitrary: acc)
  case Nil
  then show ?case by simp
next
  case (Cons x xs)
  from Cons.prems obtain k tr child where k: "getitem x ''value'' = Inr k"
    and tr: "getitem x ''tree'' = Inr tr" and child: "Tree_init B tr = Inr child"
    and rest: "children_of B xs (dict_set acc k child) = Inr ch"
    by (auto simp del: Tree_init.simps split: sum.splits if_splits)
  from Cons.IH [OF rest] obtain kcs where
    all: "list_all2 (\<lambda>x kc. getitem x ''value'' = Inr (fst kc) \<and>
                 (\<exists>tr. getitem x ''tree'' = Inr tr \<and> Tree_init B tr = Inr (snd kc))) xs kcs"
    and ch: "ch = foldl (\<lambda>a kc. dict_set a (fst kc) (snd kc)) (dict_set acc k child) kcs"
    by blast
  show ?case
    by (rule exI [of _ "(k, child) # kcs"]) (use k tr child all ch in \<open>simp del: Tree_init.simps\<close>)
qed

lemma dict_set_keys:
  "map (\<lambda>c. key_norm (fst c)) (dict_set acc k v) =
     (if key_norm k \<in> set (map (\<lambda>c. key_norm (fst c)) acc)
      then map (\<lambda>c. key_norm (fst c)) acc
      else map (\<lambda>c. key_norm (fst c)) acc @ [key_norm k])"
proof (induction acc)
  case Nil
  show ?case by simp
next
  case (Cons a acc)
  show ?case
  proof (cases "key_eq (fst a) k")
    case True
    then show ?thesis by (cases a) (simp add: key_eq_def)
  next
    case False
    then have "key_norm k \<noteq> key_norm (fst a)" by (auto simp: key_eq_def)
    with False Cons show ?thesis by (cases a) simp
  qed
qed

lemma dict_set_distinct:
  "distinct (map (\<lambda>c. key_norm (fst c)) acc)
     \<Longrightarrow> distinct (map (\<lambda>c. key_norm (fst c)) (dict_set acc k v))"
  by (simp add: dict_set_keys)

lemma dict_set_lookup:
  "map_of (map (\<lambda>c. (key_norm (fst c), snd c)) (dict_set acc k v)) =
     (map_of (map (\<lambda>c. (key_norm (fst c), snd c)) acc))(key_norm k \<mapsto> v)"
  by (induction acc) (auto simp: key_eq_def)

lemma fold_dict_set_distinct:
  "distinct (map (\<lambda>c. key_norm (fst c)) acc)
     \<Longrightarrow> distinct (map (\<lambda>c. key_norm (fst c))
                  (foldl (\<lambda>a kc. dict_set a (fst kc) (snd kc)) acc kcs))"
  by (induction kcs arbitrary: acc) (simp_all add: dict_set_distinct)

lemma fold_dict_set_keys:
  "set (map (\<lambda>c. key_norm (fst c)) (foldl (\<lambda>a kc. dict_set a (fst kc) (snd kc)) acc kcs)) =
     set (map (\<lambda>c. key_norm (fst c)) acc) \<union> set (map (\<lambda>c. key_norm (fst c)) kcs)"
proof (induction kcs arbitrary: acc)
  case Nil
  show ?case by simp
next
  case (Cons kc kcs)
  have "set (map (\<lambda>c. key_norm (fst c)) (dict_set acc (fst kc) (snd kc))) =
          insert (key_norm (fst kc)) (set (map (\<lambda>c. key_norm (fst c)) acc))"
    by (auto simp: dict_set_keys)
  with Cons [of "dict_set acc (fst kc) (snd kc)"] show ?case by auto
qed

lemma fold_dict_set_lookup:
  assumes "j < length kcs" and "key_norm (fst (kcs ! j)) = L"
    and "\<forall>n. j < n \<and> n < length kcs \<longrightarrow> key_norm (fst (kcs ! n)) \<noteq> L"
  shows "map_of (map (\<lambda>c. (key_norm (fst c), snd c))
           (foldl (\<lambda>a kc. dict_set a (fst kc) (snd kc)) acc kcs)) L = Some (snd (kcs ! j))"
  using assms
proof (induction kcs arbitrary: j rule: rev_induct)
  case Nil
  then show ?case by simp
next
  case (snoc kc kcs)
  show ?case
  proof (cases "j = length kcs")
    case True
    with snoc.prems(2) show ?thesis by (simp add: dict_set_lookup)
  next
    case False
    with snoc.prems(1) have j: "j < length kcs" by simp
    from snoc.prems(3) j have last: "key_norm (fst kc) \<noteq> L"
      by (auto dest: spec [of _ "length kcs"])
    have "key_norm (fst (kcs ! j)) = L"
      using snoc.prems(2) j by (simp add: nth_append)
    moreover have "\<forall>n. j < n \<and> n < length kcs \<longrightarrow> key_norm (fst (kcs ! n)) \<noteq> L"
    proof (intro allI impI)
      fix n assume n: "j < n \<and> n < length kcs"
      with snoc.prems(3) have "key_norm (fst ((kcs @ [kc]) ! n)) \<noteq> L" by simp
      with n show "key_norm (fst (kcs ! n)) \<noteq> L" by (simp add: nth_append)
    qed
    ultimately have "map_of (map (\<lambda>c. (key_norm (fst c), snd c))
           (foldl (\<lambda>a kc. dict_set a (fst kc) (snd kc)) acc kcs)) L = Some (snd (kcs ! j))"
      using snoc.IH [OF j] by blast
    with last j show ?thesis by (simp add: dict_set_lookup nth_append)
  qed
qed

lemma distinct_lookup_filter:
  "distinct (map f xs) \<Longrightarrow> map_of (map (\<lambda>x. (f x, g x)) xs) L = Some c
     \<Longrightarrow> \<exists>x. filter (\<lambda>x. f x = L) xs = [x] \<and> g x = c"
proof (induction xs)
  case Nil
  then show ?case by simp
next
  case (Cons a xs)
  show ?case
  proof (cases "f a = L")
    case True
    have "filter (\<lambda>x. f x = L) xs = []"
    proof (rule ccontr)
      assume "filter (\<lambda>x. f x = L) xs \<noteq> []"
      then obtain x where "x \<in> set xs" and "f x = L"
        by (auto simp: filter_empty_conv)
      with True have "f a \<in> f ` set xs" by (metis imageI)
      with Cons.prems(1) show False by simp
    qed
    with True Cons.prems(2) show ?thesis by simp
  next
    case False
    with Cons show ?thesis by simp
  qed
qed

lemma not_distinct_card: "\<not> distinct ys \<Longrightarrow> card (set ys) < length ys"
  using card_length [of ys] card_distinct [of ys] by linarith

text \<open>
  C10. Two entries of the options list with the same label (equal as dictionary keys),
  the later one, at \<open>j\<close>, being the last with that label: the children of the node
  hold exactly one child under the label, the tree built from the entry at \<open>j\<close>; the node
  has fewer children than the list has entries; and its width and height are those of
  the children it kept.
\<close>

theorem duplicate_labels:
  assumes "Tree_init B (PDict d) = Inr t"
    and "map_of d ''options'' = Some (PList xs)"
    and "i < j" and "j < length xs"
    and "getitem (xs ! i) ''value'' = Inr li"
    and "getitem (xs ! j) ''value'' = Inr lj"
    and "key_eq li lj"
    and "\<forall>n l. j < n \<and> n < length xs \<and> getitem (xs ! n) ''value'' = Inr l \<longrightarrow> \<not> key_eq l lj"
    and "getitem (xs ! j) ''tree'' = Inr tr"
  shows "\<exists>k child.
           filter (\<lambda>c. key_eq (fst c) lj) (children t) = [(k, child)] \<and>
           Tree_init B tr = Inr child \<and>
           length (children t) < length xs \<and>
           width t = (\<Sum>c\<leftarrow>children t. width (snd c)) \<and>
           height t = 1 + Max (set (map (\<lambda>c. height (snd c)) (children t)))"
proof -
  let ?nk = "\<lambda>c::pyval \<times> tree. key_norm (fst c)"
  let ?ch = "children t"
  from assms(1,2) have ch: "children_of B xs [] = Inr ?ch"
    by (auto simp: dict_get_def split: sum.splits error.splits)
  from children_of_fold [OF ch] obtain kcs where
    all: "list_all2 (\<lambda>x kc. getitem x ''value'' = Inr (fst kc) \<and>
                 (\<exists>tr. getitem x ''tree'' = Inr tr \<and> Tree_init B tr = Inr (snd kc))) xs kcs"
    and fold: "?ch = foldl (\<lambda>a kc. dict_set a (fst kc) (snd kc)) [] kcs"
    by blast
  from all have len: "length kcs = length xs" by (simp add: list_all2_lengthD)
  have nth: "getitem (xs ! n) ''value'' = Inr (fst (kcs ! n)) \<and>
             (\<exists>tr. getitem (xs ! n) ''tree'' = Inr tr \<and> Tree_init B tr = Inr (snd (kcs ! n)))"
    if "n < length xs" for n
    using list_all2_nthD [OF all that] .
  from assms(3,4) have i: "i < length xs" by simp
  from nth [OF i] assms(5) have ki: "fst (kcs ! i) = li" by simp
  from nth [OF assms(4)] assms(6) have kj: "fst (kcs ! j) = lj" by simp
  from nth [OF assms(4)] assms(9) have cj: "Tree_init B tr = Inr (snd (kcs ! j))"
    by (auto simp del: Tree_init.simps)
  have last: "\<forall>n. j < n \<and> n < length kcs \<longrightarrow> ?nk (kcs ! n) \<noteq> key_norm lj"
  proof (intro allI impI)
    fix n assume n: "j < n \<and> n < length kcs"
    with len nth [of n] have "getitem (xs ! n) ''value'' = Inr (fst (kcs ! n))" by simp
    with assms(8) n len have "\<not> key_eq (fst (kcs ! n)) lj" by auto
    then show "?nk (kcs ! n) \<noteq> key_norm lj" by (simp add: key_eq_def)
  qed
  have jl: "j < length kcs" using assms(4) len by simp
  have "?nk (kcs ! j) = key_norm lj" using kj by simp
  from fold_dict_set_lookup [OF jl this last, of "[]"] fold
  have look: "map_of (map (\<lambda>c. (?nk c, snd c)) ?ch) (key_norm lj) = Some (snd (kcs ! j))"
    by simp
  have dist: "distinct (map ?nk ?ch)"
    unfolding fold by (rule fold_dict_set_distinct) simp
  from distinct_lookup_filter [OF dist look] obtain x where
    x: "filter (\<lambda>c. ?nk c = key_norm lj) ?ch = [x]" and sx: "snd x = snd (kcs ! j)"
    by blast
  have filt: "filter (\<lambda>c. key_eq (fst c) lj) ?ch = [(fst x, snd (kcs ! j))]"
    using x sx by (simp add: key_eq_def prod_eq_iff)
  have "\<not> distinct (map ?nk kcs)"
  proof
    assume dk: "distinct (map ?nk kcs)"
    have same: "map ?nk kcs ! i = map ?nk kcs ! j"
      using ki kj assms(7) i jl len by (simp add: key_eq_def)
    have "i < length (map ?nk kcs)" and "j < length (map ?nk kcs)"
      using i jl len by simp_all
    from nth_eq_iff_index_eq [OF dk this] same have "i = j" by blast
    with assms(3) show False by simp
  qed
  then have "card (set (map ?nk kcs)) < length kcs"
    using not_distinct_card [of "map ?nk kcs"] by simp
  moreover have "set (map ?nk ?ch) = set (map ?nk kcs)"
    unfolding fold using fold_dict_set_keys [of "[]" kcs] by simp
  moreover have "card (set (map ?nk ?ch)) = length ?ch"
    using distinct_card [OF dist] by simp
  ultimately have short: "length ?ch < length xs" using len by simp
  from filt have ne: "?ch \<noteq> []" by auto
  have "t \<in> set (nodes t)" by (cases t) simp
  with init_nodes_ok(1) [of B "PDict d" t] assms(1) have "node_ok t" by blast
  with ne have dims: "width t = (\<Sum>c\<leftarrow>?ch. width (snd c)) \<and>
                      height t = 1 + Max (set (map (\<lambda>c. height (snd c)) ?ch))"
    by (simp add: node_ok_def)
  from filt cj short dims show ?thesis by blast
qed

theorem duplicate_labels_witness:
  "Tree_init \<lparr>json_dumps = (\<lambda>v. ''''), json_loads = (\<lambda>s. None), str_other = (\<lambda>v. '''')\<rparr>
     (PDict [(''options'',
              PList [PDict [(''value'', PStr ''a''), (''tree'', PDict [(''content'', PStr ''x'')])],
                     PDict [(''value'', PStr ''b''), (''tree'', PDict [(''content'', PStr ''y'')])],
                     PDict [(''value'', PStr ''a''), (''tree'', PDict [(''content'', PStr ''z'')])]])])
   = Inr (Tree '''' ''''
            [(PStr ''a'', Tree '''' ''z'' [] 1 1), (PStr ''b'', Tree '''' ''y'' [] 1 1)] 2 2) \<and>
   getitem (PDict [(''value'', PStr ''a''), (''tree'', PDict [(''content'', PStr ''x'')])]) ''value''
     = Inr (PStr ''a'') \<and>
   getitem (PDict [(''value'', PStr ''a''), (''tree'', PDict [(''content'', PStr ''z'')])]) ''value''
     = Inr (PStr ''a'') \<and>
   key_eq (PStr ''a'') (PStr ''a'') \<and>
   filter (\<lambda>c. key_eq (fst c) (PStr ''a''))
     (children (Tree '''' ''''
            [(PStr ''a'', Tree '''' ''z'' [] 1 1), (PStr ''b'', Tree '''' ''y'' [] 1 1)] 2 2))
     = [(PStr ''a'', Tree '''' ''z'' [] 1 1)] \<and>
   length (children (Tree '''' ''''
            [(PStr ''a'', Tree '''' ''z'' [] 1 1), (PStr ''b'', Tree '''' ''y'' [] 1 1)] 2 2)) < 3"
proof -
  let ?B = "\<lparr>json_dumps = (\<lambda>v. ''''), json_loads = (\<lambda>s. None), str_other = (\<lambda>v. '''')\<rparr>"
  let ?x0 = "PDict [(''value'', PStr ''a''), (''tree'', PDict [(''content'', PStr ''x'')])]"
  let ?x1 = "PDict [(''value'', PStr ''b''), (''tree'', PDict [(''content'', PStr ''y'')])]"
  let ?x2 = "PDict [(''value'', PStr ''a''), (''tree'', PDict [(''content'', PStr ''z'')])]"
  let ?xs = "[?x0, ?x1, ?x2]"
  let ?d = "[(''options'', PList ?xs)]"
  let ?t = "Tree '''' '''' [(PStr ''a'', Tree '''' ''z'' [] 1 1), (PStr ''b'', Tree '''' ''y'' [] 1 1)] 2 2"
  have h1: "Tree_init ?B (PDict ?d) = Inr ?t"
    by (simp add: dict_get_def py_str_def key_eq_def)
  have h2: "map_of ?d ''options'' = Some (PList ?xs)" by simp
  have h3: "(0::nat) < 2" by simp
  have h4: "2 < length ?xs" by simp
  have h5: "getitem (?xs ! 0) ''value'' = Inr (PStr ''a'')" by simp
  have h6: "getitem (?xs ! 2) ''value'' = Inr (PStr ''a'')" by simp
  have h7: "key_eq (PStr ''a'') (PStr ''a'')" by (simp add: key_eq_def)
  have h8: "\<forall>n l. 2 < n \<and> n < length ?xs \<and> getitem (?xs ! n) ''value'' = Inr l
              \<longrightarrow> \<not> key_eq l (PStr ''a'')"
    by auto
  have h9: "getitem (?xs ! 2) ''tree'' = Inr (PDict [(''content'', PStr ''z'')])" by simp
  from duplicate_labels [OF h1 h2 h3 h4 h5 h6 h7 h8 h9]
  have f3: "length (children ?t) < length ?xs" by blast
  have f1: "filter (\<lambda>c. key_eq (fst c) (PStr ''a'')) (children ?t)
              = [(PStr ''a'', Tree '''' ''z'' [] 1 1)]"
    by (simp add: key_eq_def)
  from f3 have "length (children ?t) < 3" by simp
  with f1 h1 h5 h6 h7 show ?thesis by simp
qed

section \<open>Properties of serialization\<close>

text \<open>
  C3. A well-formed record (the shape of the serialized format, every entry with both
  keys): the constructor builds a tree; writing it with \<^verbatim>\<open>to_json\<close>, reading the file
  back with \<^verbatim>\<open>from_json\<close> and writing the result again leaves the file as the first
  write made it. The encoder and decoder of the \<^verbatim>\<open>json\<close> library are parameters; the
  third hypothesis is what the library promises for such a record: decoding the text that
  encodes it gives the record back.
\<close>

theorem serialization_round_trip:
  assumes "record_shape dic" and "entries_complete dic"
    and "json_loads B (json_dumps B dic) = Some dic"
  shows "\<exists>t t'. Tree_init B dic = Inr t \<and>
           from_json B path (to_json t path fs) = Inr t' \<and>
           t' = t \<and> json t' = json t \<and>
           to_json t' path (to_json t path fs) = to_json t path fs"
proof -
  from shape_success(1) [of dic B] assms(1,2) have "\<not> isl (Tree_init B dic)" by blast
  then obtain t where t: "Tree_init B dic = Inr t"
    by (cases "Tree_init B dic") simp_all
  then have j: "json t = json_dumps B dic"
    by (auto split: pyval.splits sum.splits error.splits)
  have r: "from_json B path (to_json t path fs) = Inr t"
    using t assms(3) by (simp add: from_json_def to_json_def j del: Tree_init.simps)
  have "to_json t path (to_json t path fs) = to_json t path fs"
    by (simp add: to_json_def)
  with t r show ?thesis by blast
qed

theorem serialization_round_trip_witness:
  "record_shape (PDict [(''content'', PStr ''x'')]) \<and>
   entries_complete (PDict [(''content'', PStr ''x'')]) \<and>
   json_loads
     \<lparr>json_dumps = (\<lambda>v. ''{content: x}''),
      json_loads = (\<lambda>s. if s = ''{content: x}'' then Some (PDict [(''content'', PStr ''x'')])
                         else None),
      str_other = (\<lambda>v. '''')\<rparr>
     (json_dumps
        \<lparr>json_dumps = (\<lambda>v. ''{content: x}''),
         json_loads = (\<lambda>s. if s = ''{content: x}'' then Some (PDict [(''content'', PStr ''x'')])
                            else None),
         str_other = (\<lambda>v. '''')\<rparr>
        (PDict [(''content'', PStr ''x'')]))
     = Some (PDict [(''content'', PStr ''x'')]) \<and>
   from_json
     \<lparr>json_dumps = (\<lambda>v. ''{content: x}''),
      json_loads = (\<lambda>s. if s = ''{content: x}'' then Some (PDict [(''content'', PStr ''x'')])
                         else None),
      str_other = (\<lambda>v. '''')\<rparr>
     ''t.json'' (to_json (Tree ''{content: x}'' ''x'' [] 1 1) ''t.json'' Map.empty)
     = Inr (Tree ''{content: x}'' ''x'' [] 1 1)"
proof -
  let ?d = "PDict [(''content'', PStr ''x'')]"
  let ?B = "\<lparr>json_dumps = (\<lambda>v. ''{content: x}''),
      json_loads = (\<lambda>s. if s = ''{content: x}'' then Some ?d else None),
      str_other = (\<lambda>v. '''')\<rparr>"
  have h1: "record_shape ?d" by (simp add: record_shape_PDict)
  have h2: "entries_complete ?d" by (simp add: entries_complete_PDict)
  have h3: "json_loads ?B (json_dumps ?B ?d) = Some ?d" by simp
  have t: "Tree_init ?B ?d = Inr (Tree ''{content: x}'' ''x'' [] 1 1)"
    by (simp add: dict_get_def py_str_def)
  from serialization_round_trip [OF h1 h2 h3, of "''t.json''" Map.empty] t
  have "from_json ?B ''t.json'' (to_json (Tree ''{content: x}'' ''x'' [] 1 1) ''t.json'' Map.empty)
          = Inr (Tree ''{content: x}'' ''x'' [] 1 1)"
    by (auto simp del: Tree_init.simps)
  with h1 h2 h3 show ?thesis by blast
qed

section \<open>Properties of the parser\<close>

lemma parse_if_else_lines:
  "parse_python [''if a:'', ''    x'', ''else:'', ''    y''] None =
     Inr (PDict [(''content'', PStr ''a''),
                 (''options'',
                  PList [PDict [(''value'', PStr ''a''),
                                (''tree'', PDict [(''content'', PStr ''x'')])],
                         PDict [(''value'', PStr ''else''),
                                (''tree'', PDict [(''content'', PStr ''y'')])]])])"
  by code_simp

text \<open>
  C2. The four lines \<^verbatim>\<open>if a:\<close>, \<^verbatim>\<open>    x\<close>, \<^verbatim>\<open>else:\<close>, \<^verbatim>\<open>    y\<close> give a branch
  with content \<^verbatim>\<open>a\<close> and exactly two children in the order of the clauses: the label
  \<^verbatim>\<open>a\<close> with the leaf \<^verbatim>\<open>x\<close>, then the label of the default clause, which the parser
  writes as the string \<^verbatim>\<open>else\<close>, with the leaf \<^verbatim>\<open>y\<close>. The width and the height of the
  tree are 2.
\<close>

theorem parse_if_else_example:
  "from_python B [''if a:'', ''    x'', ''else:'', ''    y''] =
     Inr (Tree
       (json_dumps B
          (PDict [(''content'', PStr ''a''),
                  (''options'',
                   PList [PDict [(''value'', PStr ''a''),
                                 (''tree'', PDict [(''content'', PStr ''x'')])],
                          PDict [(''value'', PStr ''else''),
                                 (''tree'', PDict [(''content'', PStr ''y'')])]])]))
       ''a''
       [(PStr ''a'', Tree (json_dumps B (PDict [(''content'', PStr ''x'')])) ''x'' [] 1 1),
        (PStr ''else'', Tree (json_dumps B (PDict [(''content'', PStr ''y'')])) ''y'' [] 1 1)]
       2 2)"
  by (simp add: from_python_def parse_if_else_lines dict_get_def py_str_def key_eq_def)

text \<open>
  C6. A block of zero lines: the parser reads \<^verbatim>\<open>code[0]\<close> before anything else, so
  the call raises IndexError and gives no leaf; \<^verbatim>\<open>from_python\<close> on an empty file
  fails the same way.
\<close>

theorem parse_empty_block:
  "parse_python [] permeated_arg = Inl IndexError \<and> from_python B [] = Inl IndexError"
  by (simp add: from_python_def parse_python.simps)

section \<open>Properties of the layout\<close>










end
